theory Spec2Isabelle
  imports Main "HOL-Library.Word" "HOL-Library.Signed_Division"
begin

section \<open>PolicyStore: the ACL manager\<close>

text \<open>
  The Go source keeps the active policy behind \<open>m.cfg\<close>, a pointer to an \<open>ACLConfig\<close>.
  The two Go maps of the policy are ranged over by \<open>IsAllow\<close>; a map has one entry per
  key and the order of a \<open>range\<close> is not fixed, so the model takes the entries as a list
  in whatever order the loop visits them, and the theorems below hold for every order.
  A nil map and an empty map are both the empty list (the source tests
  \<open>AllowList != nil && len(AllowList) != 0\<close>).
\<close>

record FilterCase =
  Key :: string
  Value :: string
  ExcludePath :: "string list"
  Suffix :: "string list"

record ACLConfig =
  AllowList :: "(string \<times> string) list"
  BlockList :: "(string \<times> string) list"
  FilterOptions :: "FilterCase list"
  DefaultFilterOption :: FilterCase
  TailingCompressed :: bool
  ArchivedFormat :: "string list"

text \<open>
  \<open>model.LabelSet\<close> is a Go map from label names to label values. Reading a missing key
  gives the zero value, the empty string; the two-value form \<open>v, ok := labels[k]\<close> tells
  the two apart.
\<close>

type_synonym LabelSet = "string \<rightharpoonup> string"

definition labelValue :: "LabelSet \<Rightarrow> string \<Rightarrow> string" where
  "labelValue labels l = (case labels l of None \<Rightarrow> [] | Some v \<Rightarrow> v)"

text \<open>
  \<open>regexp.MatchString(pattern, s)\<close> of the Go library compiles the pattern and, when that
  succeeds, matches; a pattern that does not compile gives an error whatever \<open>s\<close> is. The
  compiler is a parameter of the model.
\<close>

datatype regexp_error = ErrRegexpSyntax

type_synonym regexp_compile = "string \<Rightarrow> regexp_error + (string \<Rightarrow> bool)"

definition MatchString :: "regexp_compile \<Rightarrow> string \<Rightarrow> string \<Rightarrow> regexp_error + bool" where
  "MatchString compile pattern s =
     (case compile pattern of Inl e \<Rightarrow> Inl e | Inr re \<Rightarrow> Inr (re s))"

text \<open>The test \<open>err == nil && matched\<close> on one entry \<open>l, v\<close> of an allow or block list.\<close>

definition entryMatches :: "regexp_compile \<Rightarrow> LabelSet \<Rightarrow> string \<times> string \<Rightarrow> bool" where
  "entryMatches compile labels e =
     (MatchString compile (snd e) (labelValue labels (fst e)) = Inr True)"

text \<open>The loop over the allow list: a matching entry sets \<open>allow\<close>, no entry clears it.\<close>

fun allowLoop :: "regexp_compile \<Rightarrow> LabelSet \<Rightarrow> (string \<times> string) list \<Rightarrow> bool \<Rightarrow> bool" where
  "allowLoop compile labels [] allow = allow"
| "allowLoop compile labels (e # es) allow =
     allowLoop compile labels es (if entryMatches compile labels e then True else allow)"

text \<open>The loop over the block list: a matching entry clears \<open>allow\<close>.\<close>

fun blockLoop :: "regexp_compile \<Rightarrow> LabelSet \<Rightarrow> (string \<times> string) list \<Rightarrow> bool \<Rightarrow> bool" where
  "blockLoop compile labels [] allow = allow"
| "blockLoop compile labels (e # es) allow =
     blockLoop compile labels es (if entryMatches compile labels e then False else allow)"

definition IsAllow :: "regexp_compile \<Rightarrow> ACLConfig \<Rightarrow> LabelSet \<Rightarrow> bool" where
  "IsAllow compile conf labels =
     (let allow = (if AllowList conf \<noteq> []
                   then allowLoop compile labels (AllowList conf) False
                   else True)
      in blockLoop compile labels (BlockList conf) allow)"

text \<open>
  \<open>GetFilterOption\<close>: the first filter case whose key is a label of the set and whose
  regex matches that label's value; the default case after the loop.
\<close>

definition caseMatches :: "regexp_compile \<Rightarrow> LabelSet \<Rightarrow> FilterCase \<Rightarrow> bool" where
  "caseMatches compile labels f =
     (case labels (Key f) of
        None \<Rightarrow> False
      | Some v \<Rightarrow> MatchString compile (Value f) v = Inr True)"

fun filterLoop :: "regexp_compile \<Rightarrow> LabelSet \<Rightarrow> FilterCase list \<Rightarrow> FilterCase \<Rightarrow> FilterCase" where
  "filterLoop compile labels [] dflt = dflt"
| "filterLoop compile labels (f # fs) dflt =
     (if caseMatches compile labels f then f else filterLoop compile labels fs dflt)"

definition GetFilterOption :: "regexp_compile \<Rightarrow> ACLConfig \<Rightarrow> LabelSet \<Rightarrow> FilterCase" where
  "GetFilterOption compile conf labels =
     filterLoop compile labels (FilterOptions conf) (DefaultFilterOption conf)"

text \<open>An entry whose pattern compiles.\<close>

definition validPattern :: "regexp_compile \<Rightarrow> string \<times> string \<Rightarrow> bool" where
  "validPattern compile e = (case compile (snd e) of Inl _ \<Rightarrow> False | Inr _ \<Rightarrow> True)"

subsection \<open>Reloading the policy\<close>

text \<open>
  \<open>m.cfg\<close> is a pointer, and a reload either keeps it or replaces it, so the
  \<open>ACLConfig\<close> objects live in a heap: the list of the objects allocated so far, a pointer being a position
  in it. \<open>m.cfg = &cfg\<close> lets the local \<open>cfg\<close> of \<open>syncOnce\<close> escape, so every call that
  reaches the assignment allocates a new object.

  \<open>reflect.DeepEqual\<close> takes two values of any type. The two kinds of value \<open>syncOnce\<close>
  can hand it are an \<open>ACLConfig\<close> and a \<open>*ACLConfig\<close>. Values of distinct types are never
  deeply equal; two pointers are deeply equal when they are equal or point to deeply
  equal values.
\<close>

type_synonym addr = nat

record ACLManager =
  aclFilepath :: string
  cfg :: addr

datatype go_value = ValACLConfig ACLConfig | PtrACLConfig addr

fun DeepEqual :: "ACLConfig list \<Rightarrow> go_value \<Rightarrow> go_value \<Rightarrow> bool" where
  "DeepEqual heap (ValACLConfig a) (ValACLConfig b) = (a = b)"
| "DeepEqual heap (PtrACLConfig p) (PtrACLConfig q) = (p = q \<or> heap ! p = heap ! q)"
| "DeepEqual heap (ValACLConfig a) (PtrACLConfig q) = False"
| "DeepEqual heap (PtrACLConfig p) (ValACLConfig b) = False"

text \<open>
  \<open>syncOnce\<close> reads the file and parses it; both can fail, and then the manager is left
  as it is. \<open>readFile\<close> stands for \<open>ioutil.ReadFile\<close> and \<open>unmarshal\<close> for \<open>json.Unmarshal\<close>
  into a fresh \<open>ACLConfig\<close>. The comparison is the source's
  \<open>reflect.DeepEqual(cfg, m.cfg)\<close>: the parsed value against the manager's pointer.
\<close>

datatype file_error = ErrReadFile | ErrUnmarshal

definition syncOnce :: "(string \<Rightarrow> file_error + string) \<Rightarrow> (string \<Rightarrow> file_error + ACLConfig)
    \<Rightarrow> ACLManager \<times> ACLConfig list \<Rightarrow> ACLManager \<times> ACLConfig list" where
  "syncOnce readFile unmarshal st =
     (case st of (m, heap) \<Rightarrow>
        (case readFile (aclFilepath m) of
           Inl e \<Rightarrow> (m, heap)
         | Inr b \<Rightarrow>
             (case unmarshal b of
                Inl e \<Rightarrow> (m, heap)
              | Inr new \<Rightarrow>
                  if DeepEqual heap (ValACLConfig new) (PtrACLConfig (cfg m)) then (m, heap)
                  else (m\<lparr>cfg := length heap\<rparr>, heap @ [new]))))"

section \<open>EndpointSelector: the access picker\<close>

text \<open>
  The cursor \<open>idx\<close> is an \<open>atomic.Int32\<close>: a 32-bit word read as two's complement.
  Go's \<open>%\<close> truncates towards zero, so its result has the sign of the dividend; the
  most negative value modulo \<open>-1\<close> is \<open>0\<close>. Indexing a slice with a negative or too
  large index panics, as does an integer division by zero.
\<close>

datatype go_panic = IndexOutOfRange | DivideByZero

type_synonym int32 = "32 word"

definition rem32 :: "int32 \<Rightarrow> int32 \<Rightarrow> int32" where
  "rem32 a b = word_of_int (sint a smod sint b)"

definition index32 :: "string list \<Rightarrow> int32 \<Rightarrow> go_panic + string" where
  "index32 xs i =
     (if 0 \<le> sint i \<and> sint i < int (length xs) then Inr (xs ! nat (sint i))
      else Inl IndexOutOfRange)"

record AccessPicker =
  idc :: string
  accessEndpointList :: "string list"
  idx :: int32

text \<open>
  \<open>NewAccessPicker\<close> starts from an empty list and the cursor \<open>rand.Int31() % 100\<close>;
  \<open>r\<close> is the value \<open>rand.Int31()\<close> returned, a non-negative \<open>int32\<close>.
\<close>

definition NewAccessPicker :: "string \<Rightarrow> int32 \<Rightarrow> AccessPicker" where
  "NewAccessPicker idcFilter r =
     \<lparr>idc = idcFilter, accessEndpointList = [], idx = rem32 r 100\<rparr>"

text \<open>
  \<open>Pick\<close> touches the shared cursor twice, each time atomically: \<open>ap.idx.Add(1)\<close>
  returns the incremented value, from which the local \<open>next\<close> is computed, and
  \<open>ap.idx.Store(next)\<close> writes \<open>next\<close> back. \<open>Pick_add\<close> is the call up to and including
  the \<open>Add\<close> (with the early return on an empty list), \<open>Pick_store\<close> the rest. Between the
  two another caller may run; \<open>Pick\<close> is one call running alone.
\<close>

datatype pick_pc = Returned "go_panic + string" | Storing int32

definition Pick_add :: "AccessPicker \<Rightarrow> pick_pc \<times> AccessPicker" where
  "Pick_add ap =
     (if length (accessEndpointList ap) = 0 then (Returned (Inr []), ap)
      else
        let added = idx ap + 1;
            ap' = ap\<lparr>idx := added\<rparr>;
            n = (of_nat (length (accessEndpointList ap)) :: int32)
        in if n = 0 then (Returned (Inl DivideByZero), ap')
           else (Storing (rem32 added n), ap'))"

definition Pick_store :: "int32 \<Rightarrow> AccessPicker \<Rightarrow> (go_panic + string) \<times> AccessPicker" where
  "Pick_store next ap =
     (let ap' = ap\<lparr>idx := next\<rparr> in (index32 (accessEndpointList ap') next, ap'))"

definition Pick :: "AccessPicker \<Rightarrow> (go_panic + string) \<times> AccessPicker" where
  "Pick ap =
     (case Pick_add ap of
        (Returned r, ap') \<Rightarrow> (r, ap')
      | (Storing next, ap') \<Rightarrow> Pick_store next ap')"

text \<open>\<open>N\<close> calls one after the other, and what each returned.\<close>

fun PickN :: "nat \<Rightarrow> AccessPicker \<Rightarrow> (go_panic + string) list" where
  "PickN 0 ap = []"
| "PickN (Suc n) ap = (case Pick ap of (r, ap') \<Rightarrow> r # PickN n ap')"

text \<open>
  Callers running at the same time: a schedule names, step by step, the caller that runs
  its next atomic part. A caller with no pending \<open>next\<close> runs \<open>Pick_add\<close>; one with a
  pending \<open>next\<close> runs \<open>Pick_store\<close> and returns. The result lists who returned what, in
  the order of the returns.
\<close>

fun runSchedule :: "nat list \<Rightarrow> AccessPicker \<Rightarrow> (nat \<rightharpoonup> int32) \<Rightarrow> (nat \<times> (go_panic + string)) list" where
  "runSchedule [] ap pending = []"
| "runSchedule (t # ts) ap pending =
     (case pending t of
        None \<Rightarrow>
          (case Pick_add ap of
             (Returned r, ap') \<Rightarrow> (t, r) # runSchedule ts ap' pending
           | (Storing next, ap') \<Rightarrow> runSchedule ts ap' (pending(t \<mapsto> next)))
      | Some next \<Rightarrow>
          (case Pick_store next ap of
             (r, ap') \<Rightarrow> (t, r) # runSchedule ts ap' (pending(t := None))))"

text \<open>
  The life of a picker: calls of \<open>Pick\<close>, and refreshes, which replace the whole list
  (\<open>syncAccessEpOnce\<close> assigns the list it built from the directory service's answer).
  \<open>fitsInt32\<close> holds of a refresh whose list has a length that \<open>int32(len(...))\<close> keeps.
\<close>

datatype picker_event = CallPick | Refresh "string list"

fun applyEvent :: "AccessPicker \<Rightarrow> picker_event \<Rightarrow> AccessPicker" where
  "applyEvent ap CallPick = snd (Pick ap)"
| "applyEvent ap (Refresh eps) = ap\<lparr>accessEndpointList := eps\<rparr>"

definition runEvents :: "picker_event list \<Rightarrow> AccessPicker \<Rightarrow> AccessPicker" where
  "runEvents evs ap = foldl applyEvent ap evs"

fun fitsInt32 :: "picker_event \<Rightarrow> bool" where
  "fitsInt32 CallPick = True"
| "fitsInt32 (Refresh eps) = (length eps < 2 ^ 31)"

text \<open>What every state a picker reaches satisfies.\<close>

definition cursorOk :: "AccessPicker \<Rightarrow> bool" where
  "cursorOk ap \<longleftrightarrow> 0 \<le> sint (idx ap) \<and> sint (idx ap) < 2 ^ 31 - 1
     \<and> length (accessEndpointList ap) < 2 ^ 31"

subsection \<open>Parsing a server record\<close>

text \<open>
  The source has two versions of \<open>parseAccessServerInfo\<close>. Both start from
  \<open>ap.pattern.FindStringSubmatch(s)\<close>, which gives nil when the pattern does not match
  and otherwise the matched text followed by the text of each group. \<open>submatch\<close> stands
  for that call; nil is the empty list. The first version returns three empty strings
  when there are fewer than five entries and entries 1, 2 and 4 otherwise.
\<close>

definition parseAccessServerInfo :: "(string \<Rightarrow> string list) \<Rightarrow> string \<Rightarrow> string \<times> string \<times> string" where
  "parseAccessServerInfo submatch s =
     (let matches = submatch s
      in if length matches < 5 then ([], [], [])
         else (matches ! 1, matches ! 2, matches ! 4))"

text \<open>
  The second version ranges over the entries with their indices and keeps the entries
  at 1, 2 and 4, starting from three empty strings.
\<close>

fun parseLoop :: "nat \<Rightarrow> string list \<Rightarrow> string \<times> string \<times> string \<Rightarrow> string \<times> string \<times> string" where
  "parseLoop i [] (ip, port, idc') = (ip, port, idc')"
| "parseLoop i (m # ms) (ip, port, idc') =
     parseLoop (Suc i) ms
       (if i = 1 then m else ip, if i = 2 then m else port, if i = 4 then m else idc')"

definition parseAccessServerInfo_range :: "(string \<Rightarrow> string list) \<Rightarrow> string \<Rightarrow> string \<times> string \<times> string" where
  "parseAccessServerInfo_range submatch s = parseLoop 0 (submatch s) ([], [], [])"

text \<open>
  The pattern of the source is
  \<^verbatim>\<open>(?P<ip>.*?):(?P<port>.*?)#(?P<weight>.*?)\|(?P<idc>.*)\<close>.
  Go's matching is leftmost-first and not anchored, and \<open>.\<close> matches every character
  but the newline. So a match that starts at a given position takes as \<open>ip\<close> the text up
  to the first colon, as \<open>port\<close> the text up to the next \<open>#\<close>, as \<open>weight\<close> the text up
  to the next \<open>|\<close> (none of the three running over a newline: the lazy \<open>.*?\<close> grows
  only as far as it must, and a later colon, \<open>#\<close> or \<open>|\<close> on the line cannot succeed
  where the first failed), and as \<open>idc\<close> the rest of the line. \<open>cut c s\<close> splits \<open>s\<close> at
  its first \<open>c\<close>, and fails when a newline or the end comes first. The match reported
  is the one at the first position that has one.
\<close>

definition newline :: char where
  "newline = CHR 0x0A"

fun cut :: "char \<Rightarrow> string \<Rightarrow> (string \<times> string) option" where
  "cut c [] = None"
| "cut c (x # xs) =
     (if x = c then Some ([], xs)
      else if x = newline then None
      else (case cut c xs of None \<Rightarrow> None | Some (a, b) \<Rightarrow> Some (x # a, b)))"

definition matchServerInfo :: "string \<Rightarrow> string list option" where
  "matchServerInfo s =
     (case cut CHR '':'' s of
        None \<Rightarrow> None
      | Some (ip, r1) \<Rightarrow>
          (case cut CHR ''#'' r1 of
             None \<Rightarrow> None
           | Some (port, r2) \<Rightarrow>
               (case cut CHR ''|'' r2 of
                  None \<Rightarrow> None
                | Some (weight, r3) \<Rightarrow>
                    (let idc' = takeWhile (\<lambda>c. c \<noteq> newline) r3
                     in Some [ip @ '':'' @ port @ ''#'' @ weight @ ''|'' @ idc',
                              ip, port, weight, idc']))))"

fun serverInfoSubmatch :: "string \<Rightarrow> string list" where
  "serverInfoSubmatch [] = []"
| "serverInfoSubmatch (c # s) =
     (case matchServerInfo (c # s) of
        Some ms \<Rightarrow> ms
      | None \<Rightarrow> serverInfoSubmatch s)"

section \<open>PathDiscoveryCache: the glob searcher\<close>

text \<open>
  The searcher holds two concurrent maps keyed by the pattern, \<open>inProcess\<close> and
  \<open>result\<close>, and a channel of tasks. The channel has no buffer: a send completes when
  the worker receives. \<open>queue\<close> lists the tasks sent and not yet received, oldest first,
  and \<open>running\<close> is the task the worker has received and not yet finished.
\<close>

datatype glob_error = ErrBadPattern

record searchResult =
  matches :: "string list"
  err :: "glob_error option"

record taskInfo =
  Path :: string
  taskExcludePath :: "string list"
  SuffixFilter :: "string list"

record GlobSearcher =
  inProcess :: "string \<rightharpoonup> taskInfo"
  result :: "string \<rightharpoonup> searchResult"
  queue :: "taskInfo list"
  running :: "taskInfo option"

definition NewGlobSearcher :: GlobSearcher where
  "NewGlobSearcher = \<lparr>inProcess = Map.empty, result = Map.empty, queue = [], running = None\<rparr>"

text \<open>What \<open>Search\<close> returns: the cached result, or an empty list and no error.\<close>

definition cached :: "GlobSearcher \<Rightarrow> string \<Rightarrow> string list \<times> glob_error option" where
  "cached s path =
     (case result s path of None \<Rightarrow> ([], None) | Some mr \<Rightarrow> (matches mr, err mr))"

text \<open>
  \<open>Search\<close> touches the shared maps and the channel in separate steps, each atomic on
  its own and with no lock around them: \<open>s.inProcess.Load(path)\<close> reads the mark,
  \<open>s.inProcess.Store\<close> sets it (the stored \<open>taskInfo\<close> has no \<open>Path\<close>), the send puts
  the task on the channel, and \<open>s.result.Load(path)\<close> reads the cache. Between any two
  of them another caller or the worker may run.
\<close>

definition Search_load :: "string \<Rightarrow> GlobSearcher \<Rightarrow> bool" where
  "Search_load path s \<longleftrightarrow> inProcess s path \<noteq> None"

definition Search_store :: "string \<Rightarrow> string list \<Rightarrow> string list \<Rightarrow> GlobSearcher \<Rightarrow> GlobSearcher" where
  "Search_store path excludePath suffixFilter s =
     s\<lparr>inProcess := (inProcess s)(path \<mapsto>
          \<lparr>Path = [], taskExcludePath = excludePath, SuffixFilter = suffixFilter\<rparr>)\<rparr>"

definition Search_send :: "string \<Rightarrow> string list \<Rightarrow> string list \<Rightarrow> GlobSearcher \<Rightarrow> GlobSearcher" where
  "Search_send path excludePath suffixFilter s =
     s\<lparr>queue := queue s @
          [\<lparr>Path = path, taskExcludePath = excludePath, SuffixFilter = suffixFilter\<rparr>]\<rparr>"

text \<open>
  \<open>Search\<close> is one call running with nothing in between its steps. A call that finds
  the mark sends nothing. A call that sends waits for the worker to receive, and reads
  the cache after that; the value it reads is the one cached at the call unless the
  worker has finished the new task in between.
\<close>

definition Search :: "string \<Rightarrow> string list \<Rightarrow> string list \<Rightarrow> GlobSearcher
    \<Rightarrow> (string list \<times> glob_error option) \<times> GlobSearcher" where
  "Search path excludePath suffixFilter s =
     (let s' = (if Search_load path s then s
                else Search_send path excludePath suffixFilter
                       (Search_store path excludePath suffixFilter s))
      in (cached s' path, s'))"

text \<open>
  What the worker sees of the world: \<open>doublestar.Glob\<close> (matches and error, as it returns
  them), \<open>path.Match\<close> (a malformed pattern is an error), the modification time
  \<open>os.Stat\<close> reports for a path (\<open>None\<close> when it fails) and the clock, in nanoseconds.
\<close>

record fs_env =
  Glob :: "string \<Rightarrow> string list \<times> glob_error option"
  Match :: "string \<Rightarrow> string \<Rightarrow> glob_error + bool"
  ModTime :: "string \<Rightarrow> int option"
  Now :: int

text \<open>
  \<open>dropExcludedPath\<close>: the inner loop clears \<open>keep\<close> at the first exclusion pattern
  that matches without error; the outer loop appends the paths kept. The error it
  returns is always nil.
\<close>

fun keepPath :: "(string \<Rightarrow> string \<Rightarrow> glob_error + bool) \<Rightarrow> string list \<Rightarrow> string \<Rightarrow> bool" where
  "keepPath pm [] m = True"
| "keepPath pm (ep # eps) m = (if pm ep m = Inr True then False else keepPath pm eps m)"

fun dropLoop :: "(string \<Rightarrow> string \<Rightarrow> glob_error + bool) \<Rightarrow> string list \<Rightarrow> string list \<Rightarrow> string list" where
  "dropLoop pm [] excludePath = []"
| "dropLoop pm (m # ms) excludePath =
     (if keepPath pm excludePath m then m # dropLoop pm ms excludePath
      else dropLoop pm ms excludePath)"

definition dropExcludedPath :: "(string \<Rightarrow> string \<Rightarrow> glob_error + bool) \<Rightarrow> string list \<Rightarrow> string list
    \<Rightarrow> string list \<times> glob_error option" where
  "dropExcludedPath pm ms excludePath = (dropLoop pm ms excludePath, None)"

text \<open>
  \<open>strings.HasSuffix\<close> and \<open>filterSuffix\<close>: with no suffix (nil or empty) the list is
  returned as it is; otherwise a path is appended at its first suffix.
\<close>

definition HasSuffix :: "string \<Rightarrow> string \<Rightarrow> bool" where
  "HasSuffix s suffix \<longleftrightarrow>
     length suffix \<le> length s \<and> drop (length s - length suffix) s = suffix"

fun anySuffix :: "string \<Rightarrow> string list \<Rightarrow> bool" where
  "anySuffix p [] = False"
| "anySuffix p (suffix # rest) = (if HasSuffix p suffix then True else anySuffix p rest)"

fun suffixLoop :: "string list \<Rightarrow> string list \<Rightarrow> string list" where
  "suffixLoop [] suffixFilter = []"
| "suffixLoop (p # ps) suffixFilter =
     (if anySuffix p suffixFilter then p # suffixLoop ps suffixFilter
      else suffixLoop ps suffixFilter)"

definition filterSuffix :: "string list \<Rightarrow> string list \<Rightarrow> string list" where
  "filterSuffix ms suffixFilter =
     (if suffixFilter = [] then ms else suffixLoop ms suffixFilter)"

text \<open>
  \<open>dropNoUpdatePath\<close> keeps a path when \<open>os.Stat\<close> succeeds and the modification time
  plus the period is after now.
\<close>

fun dropNoUpdatePath :: "fs_env \<Rightarrow> string list \<Rightarrow> int \<Rightarrow> string list" where
  "dropNoUpdatePath env [] period = []"
| "dropNoUpdatePath env (p # ps) period =
     (case ModTime env p of
        None \<Rightarrow> dropNoUpdatePath env ps period
      | Some t \<Rightarrow>
          (if Now env < t + period then p # dropNoUpdatePath env ps period
           else dropNoUpdatePath env ps period))"

definition minute :: int where
  "minute = 60 * 1000000000"

text \<open>
  The body of \<open>searchTask\<close> for one task, after the sleep: the four stages, each
  assigning to \<open>mr.matches\<close>, the first two also to \<open>mr.err\<close>.
\<close>

definition runTask :: "fs_env \<Rightarrow> taskInfo \<Rightarrow> searchResult" where
  "runTask env t =
     (let (m0, e0) = Glob env (Path t);
          (m1, e1) = dropExcludedPath (Match env) m0 (taskExcludePath t);
          m2 = filterSuffix m1 (SuffixFilter t);
          m3 = dropNoUpdatePath env m2 (minute * 30)
      in \<lparr>matches = m3, err = e1\<rparr>)"

text \<open>
  The worker receives a task when it has none, and finishes the one it has: it stores
  the result and deletes the mark.
\<close>

definition workerReceive :: "GlobSearcher \<Rightarrow> GlobSearcher" where
  "workerReceive s =
     (case (running s, queue s) of
        (None, t # q) \<Rightarrow> s\<lparr>queue := q, running := Some t\<rparr>
      | _ \<Rightarrow> s)"

definition workerFinish :: "fs_env \<Rightarrow> GlobSearcher \<Rightarrow> GlobSearcher" where
  "workerFinish env s =
     (case running s of
        None \<Rightarrow> s
      | Some t \<Rightarrow>
          s\<lparr>result := (result s)(Path t \<mapsto> runTask env t),
            inProcess := (inProcess s)(Path t := None),
            running := None\<rparr>)"

text \<open>
  A searcher whose callers do not overlap: calls of \<open>Search\<close>, each running alone,
  and steps of the worker, in any order, from the state \<open>NewGlobSearcher\<close> builds.
\<close>

datatype searcher_event =
    CallSearch string "string list" "string list"
  | WorkerReceive
  | WorkerFinish fs_env

fun applySearcherEvent :: "GlobSearcher \<Rightarrow> searcher_event \<Rightarrow> GlobSearcher" where
  "applySearcherEvent s (CallSearch path ex sf) = snd (Search path ex sf s)"
| "applySearcherEvent s WorkerReceive = workerReceive s"
| "applySearcherEvent s (WorkerFinish env) = workerFinish env s"

definition runSearcher :: "searcher_event list \<Rightarrow> GlobSearcher" where
  "runSearcher evs = foldl applySearcherEvent NewGlobSearcher evs"

text \<open>
  Callers whose calls overlap. Caller \<open>t\<close> makes one call, with the arguments
  \<open>calls t\<close>; a schedule names, step by step, the caller that runs its next step, or a
  step of the worker. A caller starts with the \<open>Load\<close> and remembers what it saw; one
  that saw the mark is done (it only reads the cache); one that saw none runs the
  \<open>Store\<close>, then the send, and is done. The reads of the cache change nothing in the
  searcher and are left out.
\<close>

datatype search_pc = SeenMark bool | MarkStored | CallDone

datatype overlap_step = Caller nat | Receive | Finish fs_env

fun overlapStep :: "(nat \<Rightarrow> taskInfo) \<Rightarrow> GlobSearcher \<times> (nat \<rightharpoonup> search_pc) \<Rightarrow> overlap_step
    \<Rightarrow> GlobSearcher \<times> (nat \<rightharpoonup> search_pc)" where
  "overlapStep calls (s, pcs) (Caller t) =
     (case pcs t of
        None \<Rightarrow> (s, pcs(t \<mapsto> SeenMark (Search_load (Path (calls t)) s)))
      | Some (SeenMark True) \<Rightarrow> (s, pcs(t \<mapsto> CallDone))
      | Some (SeenMark False) \<Rightarrow>
          (Search_store (Path (calls t)) (taskExcludePath (calls t)) (SuffixFilter (calls t)) s,
           pcs(t \<mapsto> MarkStored))
      | Some MarkStored \<Rightarrow>
          (Search_send (Path (calls t)) (taskExcludePath (calls t)) (SuffixFilter (calls t)) s,
           pcs(t \<mapsto> CallDone))
      | Some CallDone \<Rightarrow> (s, pcs))"
| "overlapStep calls (s, pcs) Receive = (workerReceive s, pcs)"
| "overlapStep calls (s, pcs) (Finish env) = (workerFinish env s, pcs)"

definition runOverlap :: "(nat \<Rightarrow> taskInfo) \<Rightarrow> overlap_step list \<Rightarrow> GlobSearcher" where
  "runOverlap calls steps = fst (foldl (overlapStep calls) (NewGlobSearcher, Map.empty) steps)"

text \<open>The computations in flight: the task the worker runs and the tasks sent to it.\<close>

definition inFlight :: "GlobSearcher \<Rightarrow> taskInfo list" where
  "inFlight s = (case running s of None \<Rightarrow> [] | Some t \<Rightarrow> [t]) @ queue s"

definition coalesced :: "GlobSearcher \<Rightarrow> bool" where
  "coalesced s \<longleftrightarrow>
     distinct (map Path (inFlight s)) \<and> dom (inProcess s) = Path ` set (inFlight s)"

text \<open>
  A small stand-in for the regex compiler, used to run the model on concrete policies:
  a pattern of ordinary characters matches every string it occurs in (Go's matching is
  not anchored), and the pattern \<open>(\<close> is a syntax error.
\<close>

fun occursIn :: "string \<Rightarrow> string \<Rightarrow> bool" where
  "occursIn p [] = (p = [])"
| "occursIn p (c # s) = (take (length p) (c # s) = p \<or> occursIn p s)"

definition literalCompile :: regexp_compile where
  "literalCompile p = (if p = ''('' then Inl ErrRegexpSyntax else Inr (occursIn p))"

definition emptyCase :: FilterCase where
  "emptyCase = \<lparr>Key = [], Value = [], ExcludePath = [], Suffix = []\<rparr>"

definition policy :: "(string \<times> string) list \<Rightarrow> (string \<times> string) list \<Rightarrow> ACLConfig" where
  "policy al bl = \<lparr>AllowList = al, BlockList = bl, FilterOptions = [],
     DefaultFilterOption = emptyCase, TailingCompressed = False, ArchivedFormat = []\<rparr>"

definition webCase :: FilterCase where
  "webCase = \<lparr>Key = ''app'', Value = ''web'', ExcludePath = [''/var/log/web/debug.log''], Suffix = [''.log'']\<rparr>"

definition firstCase :: FilterCase where
  "firstCase = \<lparr>Key = ''app'', Value = ''-1'', ExcludePath = [], Suffix = [''.out'']\<rparr>"

definition filterPolicy :: "FilterCase list \<Rightarrow> ACLConfig" where
  "filterPolicy fs = \<lparr>AllowList = [], BlockList = [], FilterOptions = fs,
     DefaultFilterOption = emptyCase, TailingCompressed = False, ArchivedFormat = []\<rparr>"

definition webPolicy :: ACLConfig where
  "webPolicy = policy [(''app'', ''web'')] []"

text \<open>A picker with three endpoints and the cursor at \<open>0\<close>.\<close>

definition threeEndpoints :: AccessPicker where
  "threeEndpoints = \<lparr>idc = [], accessEndpointList = [''10.0.0.1:80'', ''10.0.0.2:80'', ''10.0.0.3:80''], idx = 0\<rparr>"

text \<open>
  Stand-ins for the file system: \<open>literalMatch\<close> is \<open>path.Match\<close> on patterns without
  wildcards, and \<open>badPatternEnv\<close> a world where the pattern \<open>[\<close> is a syntax error of
  \<open>doublestar.Glob\<close>.
\<close>

definition literalMatch :: "string \<Rightarrow> string \<Rightarrow> glob_error + bool" where
  "literalMatch pattern name = Inr (pattern = name)"

definition badPatternEnv :: fs_env where
  "badPatternEnv =
     \<lparr>Glob = (\<lambda>p. if p = ''['' then ([], Some ErrBadPattern) else ([p], None)),
      Match = literalMatch,
      ModTime = (\<lambda>p. Some 0),
      Now = 0\<rparr>"

text \<open>Two callers, and any other, asking for the same pattern.\<close>

definition samePattern :: "nat \<Rightarrow> taskInfo" where
  "samePattern t = \<lparr>Path = ''/var/log/*.log'', taskExcludePath = [], SuffixFilter = [''.log'']\<rparr>"

section \<open>Properties of the ACL manager\<close>

lemma allowLoop_iff:
  "allowLoop compile labels es allow \<longleftrightarrow> allow \<or> (\<exists>e \<in> set es. entryMatches compile labels e)"
  by (induction es arbitrary: allow) auto

lemma blockLoop_iff:
  "blockLoop compile labels es allow \<longleftrightarrow> allow \<and> \<not> (\<exists>e \<in> set es. entryMatches compile labels e)"
  by (induction es arbitrary: allow) auto

lemma IsAllow_iff:
  "IsAllow compile conf labels \<longleftrightarrow>
     (AllowList conf = [] \<or> (\<exists>e \<in> set (AllowList conf). entryMatches compile labels e))
     \<and> \<not> (\<exists>e \<in> set (BlockList conf). entryMatches compile labels e)"
  by (simp add: IsAllow_def Let_def allowLoop_iff blockLoop_iff)

text \<open>
  C4. \<open>IsAllow\<close> is true by default; a non-empty allow list flips the default to false
  and then some allow entry must match (a disjunction over the entries); a matching block
  entry makes the result false whatever the allow list said, so labels matching an allow
  entry and a block entry are denied.
\<close>

theorem IsAllow_semantics:
  "(IsAllow compile conf labels \<longleftrightarrow>
      (AllowList conf = [] \<or> (\<exists>e \<in> set (AllowList conf). entryMatches compile labels e))
      \<and> \<not> (\<exists>e \<in> set (BlockList conf). entryMatches compile labels e))
   \<and> (AllowList conf = [] \<and> BlockList conf = [] \<longrightarrow> IsAllow compile conf labels)
   \<and> ((\<exists>a \<in> set (AllowList conf). entryMatches compile labels a)
        \<and> (\<exists>b \<in> set (BlockList conf). entryMatches compile labels b)
      \<longrightarrow> \<not> IsAllow compile conf labels)"
  by (simp add: IsAllow_iff)

theorem IsAllow_semantics_witness:
  "entryMatches literalCompile [''app'' \<mapsto> ''web-1''] (''app'', ''web'')
   \<and> entryMatches literalCompile [''app'' \<mapsto> ''web-1''] (''app'', ''-1'')
   \<and> \<not> IsAllow literalCompile (policy [(''app'', ''web'')] [(''app'', ''-1'')]) [''app'' \<mapsto> ''web-1'']
   \<and> IsAllow literalCompile (policy [(''app'', ''web'')] [(''app'', ''-2'')]) [''app'' \<mapsto> ''web-1'']
   \<and> IsAllow literalCompile (policy [] []) [''app'' \<mapsto> ''web-1'']"
  using IsAllow_semantics [of literalCompile "policy [(''app'', ''web'')] [(''app'', ''-1'')]" "[''app'' \<mapsto> ''web-1'']"]
        IsAllow_semantics [of literalCompile "policy [(''app'', ''web'')] [(''app'', ''-2'')]" "[''app'' \<mapsto> ''web-1'']"]
        IsAllow_semantics [of literalCompile "policy [] []" "[''app'' \<mapsto> ''web-1'']"]
  by (simp add: policy_def entryMatches_def MatchString_def literalCompile_def labelValue_def)

lemma filterLoop_none:
  "\<forall>f \<in> set fs. \<not> caseMatches compile labels f \<Longrightarrow> filterLoop compile labels fs dflt = dflt"
  by (induction fs) auto

lemma filterLoop_first:
  "i < length fs \<Longrightarrow> caseMatches compile labels (fs ! i) \<Longrightarrow>
   \<forall>j < i. \<not> caseMatches compile labels (fs ! j) \<Longrightarrow>
   filterLoop compile labels fs dflt = fs ! i"
proof (induction fs arbitrary: i)
  case Nil
  then show ?case by simp
next
  case (Cons f fs)
  show ?case
  proof (cases i)
    case 0
    with Cons.prems show ?thesis by simp
  next
    case (Suc k)
    from Cons.prems(3) Suc have "\<not> caseMatches compile labels f" by auto
    moreover have "filterLoop compile labels fs dflt = fs ! k"
    proof (rule Cons.IH)
      show "k < length fs" using Cons.prems(1) Suc by simp
      show "caseMatches compile labels (fs ! k)" using Cons.prems(2) Suc by simp
      show "\<forall>j<k. \<not> caseMatches compile labels (fs ! j)"
        using Cons.prems(3) Suc by auto
    qed
    ultimately show ?thesis using Suc by simp
  qed
qed

text \<open>
  C5. \<open>GetFilterOption\<close> goes through the filter cases in their configured order and
  returns the first one whose key is a label of the set and whose regex matches the
  label's value; when no case matches it returns the default case. When two cases match,
  the one configured earlier is returned.
\<close>

theorem GetFilterOption_first_match:
  "((\<forall>f \<in> set (FilterOptions conf). \<not> caseMatches compile labels f)
      \<longrightarrow> GetFilterOption compile conf labels = DefaultFilterOption conf)
   \<and> (\<forall>i < length (FilterOptions conf).
         caseMatches compile labels (FilterOptions conf ! i)
         \<and> (\<forall>j < i. \<not> caseMatches compile labels (FilterOptions conf ! j))
         \<longrightarrow> GetFilterOption compile conf labels = FilterOptions conf ! i)
   \<and> (caseMatches compile labels f \<longleftrightarrow>
        (\<exists>v. labels (Key f) = Some v \<and> MatchString compile (Value f) v = Inr True))"
  by (auto simp: GetFilterOption_def filterLoop_none filterLoop_first caseMatches_def
           split: option.splits)

theorem GetFilterOption_first_match_witness:
  "caseMatches literalCompile [''app'' \<mapsto> ''web-1''] webCase
   \<and> caseMatches literalCompile [''app'' \<mapsto> ''web-1''] firstCase
   \<and> GetFilterOption literalCompile (filterPolicy [webCase, firstCase]) [''app'' \<mapsto> ''web-1''] = webCase
   \<and> GetFilterOption literalCompile (filterPolicy [firstCase, webCase]) [''app'' \<mapsto> ''web-1''] = firstCase
   \<and> GetFilterOption literalCompile (filterPolicy [webCase, firstCase]) [''job'' \<mapsto> ''web-1''] = emptyCase"
proof -
  let ?l = "[''app'' \<mapsto> ''web-1'']"
  let ?j = "[''job'' \<mapsto> ''web-1'']"
  have m1: "caseMatches literalCompile ?l webCase"
    by (simp add: caseMatches_def webCase_def MatchString_def literalCompile_def)
  have m2: "caseMatches literalCompile ?l firstCase"
    by (simp add: caseMatches_def firstCase_def MatchString_def literalCompile_def)
  have n: "\<forall>f \<in> set (FilterOptions (filterPolicy [webCase, firstCase])).
             \<not> caseMatches literalCompile ?j f"
    by (simp add: filterPolicy_def caseMatches_def webCase_def firstCase_def)
  note first = GetFilterOption_first_match [THEN conjunct2, THEN conjunct1, rule_format]
  note none = GetFilterOption_first_match [THEN conjunct1, rule_format]
  have a: "GetFilterOption literalCompile (filterPolicy [webCase, firstCase]) ?l
             = FilterOptions (filterPolicy [webCase, firstCase]) ! 0"
    by (rule first) (simp_all add: filterPolicy_def m1)
  have b: "GetFilterOption literalCompile (filterPolicy [firstCase, webCase]) ?l
             = FilterOptions (filterPolicy [firstCase, webCase]) ! 0"
    by (rule first) (simp_all add: filterPolicy_def m2)
  have c: "GetFilterOption literalCompile (filterPolicy [webCase, firstCase]) ?j
             = DefaultFilterOption (filterPolicy [webCase, firstCase])"
    by (rule none) (use n in blast)
  from m1 m2 a b c show ?thesis by (simp add: filterPolicy_def)
qed

lemma invalid_never_matches:
  "\<not> validPattern compile e \<Longrightarrow> \<not> entryMatches compile labels e"
  by (auto simp: validPattern_def entryMatches_def MatchString_def split: sum.splits)

lemma entryMatches_valid:
  "entryMatches compile labels e \<longleftrightarrow> validPattern compile e \<and> entryMatches compile labels e"
  using invalid_never_matches [of compile e labels] by blast

lemma IsAllow_valid_iff:
  "IsAllow compile conf labels \<longleftrightarrow>
     (AllowList conf = []
        \<or> (\<exists>e \<in> set (AllowList conf). validPattern compile e \<and> entryMatches compile labels e))
     \<and> \<not> (\<exists>e \<in> set (BlockList conf). validPattern compile e \<and> entryMatches compile labels e)"
  unfolding IsAllow_iff using entryMatches_valid [of compile labels] by blast

text \<open>
  C9. An allow or block entry whose regex does not compile is skipped without a word:
  it matches no label set, and the answer of \<open>IsAllow\<close> is decided by the entries whose
  regex compiles alone. With a non-empty allow list the label set is allowed exactly
  when some allow entry with a valid regex matches and no block entry with a valid regex
  does. So a non-empty allow list made of invalid entries only denies every label set;
  an invalid entry of the block list never forces a denial (dropping the invalid block
  entries leaves every answer as it was); and as long as one allow entry is valid,
  dropping the invalid entries from both lists leaves every answer as it was.
\<close>

theorem IsAllow_invalid_regex:
  "(\<not> validPattern compile e \<longrightarrow> \<not> entryMatches compile labels e)
   \<and> (AllowList conf \<noteq> [] \<and> (\<forall>e \<in> set (AllowList conf). \<not> validPattern compile e)
        \<longrightarrow> \<not> IsAllow compile conf labels)
   \<and> IsAllow compile conf labels =
       IsAllow compile (conf\<lparr>BlockList := filter (validPattern compile) (BlockList conf)\<rparr>) labels
   \<and> (IsAllow compile conf labels \<longleftrightarrow>
        (AllowList conf = []
           \<or> (\<exists>e \<in> set (AllowList conf). validPattern compile e \<and> entryMatches compile labels e))
        \<and> \<not> (\<exists>e \<in> set (BlockList conf). validPattern compile e \<and> entryMatches compile labels e))
   \<and> (filter (validPattern compile) (AllowList conf) \<noteq> [] \<longrightarrow>
        IsAllow compile conf labels =
        IsAllow compile (conf\<lparr>AllowList := filter (validPattern compile) (AllowList conf),
                                BlockList := filter (validPattern compile) (BlockList conf)\<rparr>) labels)"
proof (intro conjI)
  show "\<not> validPattern compile e \<longrightarrow> \<not> entryMatches compile labels e"
    using invalid_never_matches by blast
  show "AllowList conf \<noteq> [] \<and> (\<forall>e \<in> set (AllowList conf). \<not> validPattern compile e)
        \<longrightarrow> \<not> IsAllow compile conf labels"
    unfolding IsAllow_valid_iff by blast
  show "IsAllow compile conf labels =
       IsAllow compile (conf\<lparr>BlockList := filter (validPattern compile) (BlockList conf)\<rparr>) labels"
    unfolding IsAllow_valid_iff by auto
  show "IsAllow compile conf labels \<longleftrightarrow>
        (AllowList conf = []
           \<or> (\<exists>e \<in> set (AllowList conf). validPattern compile e \<and> entryMatches compile labels e))
        \<and> \<not> (\<exists>e \<in> set (BlockList conf). validPattern compile e \<and> entryMatches compile labels e)"
    by (rule IsAllow_valid_iff)
  show "filter (validPattern compile) (AllowList conf) \<noteq> [] \<longrightarrow>
        IsAllow compile conf labels =
        IsAllow compile (conf\<lparr>AllowList := filter (validPattern compile) (AllowList conf),
                                BlockList := filter (validPattern compile) (BlockList conf)\<rparr>) labels"
  proof
    assume ne: "filter (validPattern compile) (AllowList conf) \<noteq> []"
    then have "AllowList conf \<noteq> []" by auto
    with ne show "IsAllow compile conf labels =
        IsAllow compile (conf\<lparr>AllowList := filter (validPattern compile) (AllowList conf),
                                BlockList := filter (validPattern compile) (BlockList conf)\<rparr>) labels"
      unfolding IsAllow_valid_iff by auto
  qed
qed

theorem IsAllow_invalid_regex_witness:
  "\<not> validPattern literalCompile (''app'', ''('')
   \<and> validPattern literalCompile (''job'', ''web'')
   \<and> \<not> IsAllow literalCompile (policy [(''app'', ''(''), (''job'', ''('')] []) [''app'' \<mapsto> ''(web'']
   \<and> IsAllow literalCompile (policy [] [(''app'', ''('')]) [''app'' \<mapsto> ''(web'']
   \<and> IsAllow literalCompile (policy [(''job'', ''web''), (''app'', ''('')] [(''app'', ''('')])
         [''job'' \<mapsto> ''web'', ''app'' \<mapsto> ''(web'']
   \<and> \<not> IsAllow literalCompile (policy [(''job'', ''web''), (''app'', ''('')] [])
         [''job'' \<mapsto> ''db'', ''app'' \<mapsto> ''(web'']"
proof -
  have v: "\<not> validPattern literalCompile (''app'', ''('')"
       "\<not> validPattern literalCompile (''job'', ''('')"
       "validPattern literalCompile (''job'', ''web'')"
    by (simp_all add: validPattern_def literalCompile_def)
  have a: "\<not> IsAllow literalCompile (policy [(''app'', ''(''), (''job'', ''('')] []) [''app'' \<mapsto> ''(web'']"
    using IsAllow_invalid_regex [of literalCompile "(''app'', ''('')" "[''app'' \<mapsto> ''(web'']"
            "policy [(''app'', ''(''), (''job'', ''('')] []"] v
    by (simp add: policy_def)
  have "IsAllow literalCompile (policy [] [(''app'', ''('')]) [''app'' \<mapsto> ''(web'']
        = IsAllow literalCompile (policy [] []) [''app'' \<mapsto> ''(web'']"
    using IsAllow_invalid_regex [of literalCompile "(''app'', ''('')" "[''app'' \<mapsto> ''(web'']"
            "policy [] [(''app'', ''('')]"] v
    by (simp add: policy_def)
  then have b: "IsAllow literalCompile (policy [] [(''app'', ''('')]) [''app'' \<mapsto> ''(web'']"
    by (simp add: IsAllow_def policy_def)
  have m: "entryMatches literalCompile [''job'' \<mapsto> ''web'', ''app'' \<mapsto> ''(web''] (''job'', ''web'')"
    by (simp add: entryMatches_def MatchString_def literalCompile_def labelValue_def)
  have n: "\<not> entryMatches literalCompile [''job'' \<mapsto> ''db'', ''app'' \<mapsto> ''(web''] (''job'', ''web'')"
    by (simp add: entryMatches_def MatchString_def literalCompile_def labelValue_def)
  note decided = IsAllow_invalid_regex [THEN conjunct2, THEN conjunct2, THEN conjunct2, THEN conjunct1]
  have c: "IsAllow literalCompile (policy [(''job'', ''web''), (''app'', ''('')] [(''app'', ''('')])
         [''job'' \<mapsto> ''web'', ''app'' \<mapsto> ''(web'']"
    by (subst decided) (use v m in \<open>simp add: policy_def\<close>)
  have d: "\<not> IsAllow literalCompile (policy [(''job'', ''web''), (''app'', ''('')] [])
         [''job'' \<mapsto> ''db'', ''app'' \<mapsto> ''(web'']"
    by (subst decided) (use v n in \<open>simp add: policy_def\<close>)
  from v a b c d show ?thesis by simp
qed

subsection \<open>Reloading the policy\<close>

text \<open>
  The comparison of \<open>syncOnce\<close> is between a value and a pointer, which are never deeply
  equal: every read that parses allocates a new object and points \<open>m.cfg\<close> at it.
\<close>

lemma syncOnce_always_swaps:
  "readFile (aclFilepath m) = Inr b \<Longrightarrow> unmarshal b = Inr new \<Longrightarrow>
   syncOnce readFile unmarshal (m, heap) = (m\<lparr>cfg := length heap\<rparr>, heap @ [new])"
  by (simp add: syncOnce_def)

text \<open>
  C2 fails on the code. The active policy is \<open>webPolicy\<close> at address 0 and the file
  parses to \<open>webPolicy\<close> again: after \<open>syncOnce\<close> the manager points at a new object,
  address 1, equal to the old one.
\<close>

theorem syncOnce_unchanged_file_swaps:
  "(case syncOnce (\<lambda>path. Inr ''{\"allow_list\":{\"app\":\"web\"}}'') (\<lambda>b. Inr webPolicy)
           (\<lparr>aclFilepath = ''/etc/acl.json'', cfg = 0\<rparr>, [webPolicy])
    of (m, heap) \<Rightarrow> cfg m = 1 \<and> heap ! cfg m = webPolicy \<and> heap ! 0 = webPolicy)"
  by (simp add: syncOnce_def)

section \<open>Properties of the access picker\<close>

lemma sint_word_of_int_32:
  "- (2 ^ 31) \<le> k \<Longrightarrow> k < 2 ^ 31 \<Longrightarrow> sint (word_of_int k :: int32) = k"
  by (simp add: sint_sbintrunc' signed_take_bit_int_eq_self)

lemma sint_of_nat_32:
  "n < 2 ^ 31 \<Longrightarrow> sint (of_nat n :: int32) = int n"
  using sint_word_of_int_32 [of "int n"] by simp

lemma sint_add_1_32:
  fixes a :: int32
  assumes "sint a < 2 ^ 31 - 1"
  shows "sint (a + 1) = sint a + 1"
proof -
  have "a + 1 = word_of_int (sint a + 1)" by simp
  moreover have "- (2 ^ 31) \<le> sint a + 1" using sint_ge [of a] by simp
  ultimately show ?thesis using assms sint_word_of_int_32 [of "sint a + 1"] by simp
qed

lemma sint_rem32:
  assumes "0 \<le> sint a" "0 < sint n"
  shows "sint (rem32 a n) = sint a mod sint n"
proof -
  have eq: "sint a smod sint n = sint a mod sint n"
    using assms by (simp add: smod_int_alt_def sgn_if)
  have "0 \<le> sint a mod sint n" "sint a mod sint n < sint n"
    using assms by simp_all
  moreover have "sint n < 2 ^ 31" using sint_lt [of n] by simp
  ultimately have "sint (word_of_int (sint a mod sint n) :: int32) = sint a mod sint n"
    by (intro sint_word_of_int_32) simp_all
  then show ?thesis by (simp add: rem32_def eq)
qed

text \<open>One call on a non-empty list, from a cursor whose successor is not negative.\<close>

lemma Pick_step:
  assumes eps: "accessEndpointList ap = eps" "eps \<noteq> []" "length eps < 2 ^ 31"
    and lo: "- 1 \<le> sint (idx ap)" and hi: "sint (idx ap) < 2 ^ 31 - 1"
  shows "\<exists>ap'. Pick ap = (Inr (eps ! (nat (sint (idx ap) + 1) mod length eps)), ap')
           \<and> accessEndpointList ap' = eps
           \<and> sint (idx ap') = int (nat (sint (idx ap) + 1) mod length eps)"
proof -
  let ?k = "length eps"
  let ?n = "of_nat ?k :: int32"
  let ?added = "idx ap + 1"
  let ?c = "nat (sint (idx ap) + 1)"
  have k: "0 < ?k" using eps(2) by simp
  have sn: "sint ?n = int ?k" using eps(3) by (rule sint_of_nat_32)
  then have n0: "?n \<noteq> 0" using k by auto
  have sa: "sint ?added = sint (idx ap) + 1" using hi by (rule sint_add_1_32)
  then have sa0: "0 \<le> sint ?added" using lo by simp
  have sr: "sint (rem32 ?added ?n) = sint ?added mod int ?k"
    using sint_rem32 [of ?added ?n] sa0 sn k by simp
  have c: "int ?c = sint ?added" using sa sa0 by simp
  have sr': "sint (rem32 ?added ?n) = int (?c mod ?k)"
    unfolding sr zmod_int c ..
  have lt: "?c mod ?k < ?k" using k by simp
  have ix: "index32 eps (rem32 ?added ?n) = Inr (eps ! (?c mod ?k))"
    using lt by (simp add: index32_def sr')
  show ?thesis
    using eps(1,2) n0 ix sr'
    by (simp add: Pick_def Pick_add_def Pick_store_def Let_def)
qed

lemma PickN_sequence:
  assumes "accessEndpointList ap = eps" "eps \<noteq> []" "length eps < 2 ^ 31"
    and "- 1 \<le> sint (idx ap)" and "sint (idx ap) < 2 ^ 31 - 1"
  shows "PickN N ap =
           map (\<lambda>j. Inr (eps ! ((nat (sint (idx ap) + 1) + j) mod length eps))) [0..<N]"
  using assms
proof (induction N arbitrary: ap)
  case 0
  then show ?case by simp
next
  case (Suc N)
  let ?k = "length eps"
  let ?c = "nat (sint (idx ap) + 1)"
  from Pick_step [OF Suc.prems] obtain ap' where
    p: "Pick ap = (Inr (eps ! (?c mod ?k)), ap')" and
    l: "accessEndpointList ap' = eps" and
    i: "sint (idx ap') = int (?c mod ?k)"
    by blast
  have k: "0 < ?k" using Suc.prems(2) by simp
  have lo': "- 1 \<le> sint (idx ap')" using i by simp
  have "?c mod ?k < ?k" using k by simp
  then have hi': "sint (idx ap') < 2 ^ 31 - 1" using i Suc.prems(3) by simp
  have c': "nat (sint (idx ap') + 1) = Suc (?c mod ?k)" using i by simp
  have IH: "PickN N ap' = map (\<lambda>j. Inr (eps ! ((Suc (?c mod ?k) + j) mod ?k))) [0..<N]"
    using Suc.IH [OF l Suc.prems(2,3) lo' hi'] c' by simp
  have shift: "Suc (?c mod ?k + j) mod ?k = Suc (?c + j) mod ?k" for j
    by (metis add_Suc mod_Suc_eq mod_add_left_eq)
  have "[0..<Suc N] = 0 # map Suc [0..<N]"
    by (simp add: upt_conv_Cons map_Suc_upt del: upt_Suc)
  then show ?case
    using p IH by (simp add: shift comp_def del: upt_Suc)
qed

text \<open>The arithmetic of a round robin over \<open>k\<close> positions starting at \<open>c\<close>.\<close>

lemma rr_inj:
  assumes "0 < k"
  shows "inj_on (\<lambda>j. (c + j) mod k) {m..<m + (k::nat)}"
proof (rule inj_onI)
  fix x y :: nat
  assume x: "x \<in> {m..<m + k}" and y: "y \<in> {m..<m + k}"
    and e: "(c + x) mod k = (c + y) mod k"
  have aux: "a = b" if "a \<le> b" "b < a + k" "(c + a) mod k = (c + b) mod k" for a b :: nat
  proof -
    have "c + a \<le> c + b" using that(1) by simp
    from mod_eq_dvd_iff_nat [OF this, of k] that(3)
    have "k dvd (c + b) - (c + a)" by simp
    then have "k dvd b - a" by simp
    moreover have "b - a < k" using that(1,2) by simp
    ultimately have "b - a = 0" using dvd_imp_le by fastforce
    then show ?thesis using that(1) by simp
  qed
  show "x = y"
  proof (cases "x \<le> y")
    case True
    then show ?thesis using aux [of x y] x y e by simp
  next
    case False
    then show ?thesis using aux [of y x] x y e by simp
  qed
qed

lemma count_list_distinct:
  "distinct xs \<Longrightarrow> count_list xs x = (if x \<in> set xs then 1 else 0)"
  by (induction xs) auto

lemma rr_window:
  assumes "0 < k"
  shows "distinct (map (\<lambda>j. (c + j) mod k) [m..<m + k])
       \<and> set (map (\<lambda>j. (c + j) mod k) [m..<m + k]) = {0..<k}"
proof -
  let ?f = "\<lambda>j. (c + j) mod k"
  have d: "distinct (map ?f [m..<m + k])"
    using rr_inj [OF assms, of c m] by (simp add: distinct_map)
  have sub: "set (map ?f [m..<m + k]) \<subseteq> {0..<k}" using assms by auto
  have "card (set (map ?f [m..<m + k])) = k"
    using d distinct_card [of "map ?f [m..<m + k]"] by simp
  then have "set (map ?f [m..<m + k]) = {0..<k}"
    using sub by (intro card_subset_eq) simp_all
  then show ?thesis using d by simp
qed

lemma rr_window_count:
  assumes "0 < k" "i < k"
  shows "count_list (map (\<lambda>j. (c + j) mod k) [m..<m + k]) i = 1"
proof -
  have "i \<in> set (map (\<lambda>j. (c + j) mod k) [m..<m + k])"
    using rr_window [OF assms(1), of c m] assms(2) by simp
  then show ?thesis
    using rr_window [OF assms(1), of c m] count_list_distinct by fastforce
qed

lemma rr_count:
  assumes "0 < k" "i < k"
  shows "count_list (map (\<lambda>j. (c + j) mod k) [0..<N]) i = N div k
       \<or> count_list (map (\<lambda>j. (c + j) mod k) [0..<N]) i = (N + k - 1) div k"
proof (induction N rule: less_induct)
  case (less N)
  let ?f = "\<lambda>j. (c + j) mod k"
  show ?case
  proof (cases "N < k")
    case True
    have "distinct (map ?f [0..<0 + k])"
      using rr_inj [OF assms(1), of c 0] by (simp add: distinct_map)
    moreover have "[0..<k] = [0..<N] @ [N..<k]"
      using True by (metis le_add_diff_inverse less_imp_le_nat upt_add_eq_append zero_le)
    ultimately have "distinct (map ?f [0..<N])" by simp
    then have c01: "count_list (map ?f [0..<N]) i = (if i \<in> set (map ?f [0..<N]) then 1 else 0)"
      by (rule count_list_distinct)
    show ?thesis
    proof (cases "N = 0")
      case True
      then show ?thesis by simp
    next
      case False
      then have "(N + k - 1) div k = 1" using True assms(1)
        by (simp add: div_nat_eqI)
      moreover have "N div k = 0" using True by simp
      ultimately show ?thesis using c01 by auto
    qed
  next
    case False
    then have kN: "k \<le> N" by simp
    have split: "[0..<N] = [0..<N - k] @ [N - k..<(N - k) + k]"
      using kN by (metis le_add_diff_inverse2 upt_add_eq_append zero_le)
    have "count_list (map ?f [0..<N]) i
            = count_list (map ?f [0..<N - k]) i + count_list (map ?f [N - k..<(N - k) + k]) i"
      by (subst split) simp
    then have cnt: "count_list (map ?f [0..<N]) i = count_list (map ?f [0..<N - k]) i + 1"
      using rr_window_count [OF assms, of c "N - k"] by simp
    have d1: "N div k = (N - k) div k + 1"
      using kN assms(1) by (simp add: le_div_geq)
    have d2: "(N + k - 1) div k = ((N - k) + k - 1) div k + 1"
      using kN assms(1) by (simp add: le_div_geq)
    have "N - k < N" using kN assms(1) by simp
    from less.IH [OF this] show ?thesis using cnt d1 d2 by auto
  qed
qed

lemma rr_take_drop:
  assumes "m + k \<le> N"
  shows "take k (drop m (map f [0..<N])) = map f [m..<m + k]"
  using assms by (simp add: take_map drop_map take_upt)


lemma count_list_inj_on:
  "inj_on f A \<Longrightarrow> set xs \<subseteq> A \<Longrightarrow> x \<in> A \<Longrightarrow> count_list (map f xs) (f x) = count_list xs x"
  by (induction xs) (auto simp: inj_on_def)

text \<open>
  Calls made one after the other are a fair round robin. On a fixed non-empty list of
  \<open>k\<close> entries (fewer than \<open>2^31\<close>), from a cursor \<open>c\<close> with \<open>-1 \<le> c < 2^31 - 1\<close> (every
  cursor the constructor chooses and every cursor a call leaves behind is one): the
  \<open>j\<close>-th call returns the entry at position \<open>(c + 1 + j) mod k\<close>; over \<open>N\<close> calls every
  position is returned \<open>N div k\<close> or \<open>(N + k - 1) div k\<close> times (the floor and the ceiling
  of \<open>N / k\<close>); any \<open>k\<close> consecutive calls return every position exactly once; and when
  the entries of the list are pairwise different, the counts hold of the endpoints
  themselves.
\<close>

theorem Pick_round_robin_sequential:
  assumes "accessEndpointList ap = eps" and "eps \<noteq> []" and "length eps < 2 ^ 31"
    and "- 1 \<le> sint (idx ap)" and "sint (idx ap) < 2 ^ 31 - 1"
  shows "let k = length eps;
             js = map (\<lambda>j. (nat (sint (idx ap) + 1) + j) mod k) [0..<N]
         in PickN N ap = map (\<lambda>j. Inr (eps ! j)) js
          \<and> (\<forall>i < k. count_list js i = N div k \<or> count_list js i = (N + k - 1) div k)
          \<and> (\<forall>m. m + k \<le> N \<longrightarrow>
                distinct (take k (drop m js)) \<and> set (take k (drop m js)) = {0..<k})
          \<and> (distinct eps \<longrightarrow>
               (\<forall>e \<in> set eps. count_list (PickN N ap) (Inr e) = N div k
                              \<or> count_list (PickN N ap) (Inr e) = (N + k - 1) div k))"
proof -
  let ?k = "length eps"
  let ?c = "nat (sint (idx ap) + 1)"
  let ?js = "map (\<lambda>j. (?c + j) mod ?k) [0..<N]"
  let ?g = "\<lambda>j. (Inr (eps ! j) :: go_panic + string)"
  have k: "0 < ?k" using assms(2) by simp
  have seq: "PickN N ap = map ?g ?js"
    using PickN_sequence [OF assms, of N] by (simp add: comp_def)
  have cnt: "\<forall>i < ?k. count_list ?js i = N div ?k \<or> count_list ?js i = (N + ?k - 1) div ?k"
    using rr_count [OF k] by blast
  have win: "\<forall>m. m + ?k \<le> N \<longrightarrow>
      distinct (take ?k (drop m ?js)) \<and> set (take ?k (drop m ?js)) = {0..<?k}"
  proof (intro allI impI)
    fix m assume m: "m + ?k \<le> N"
    have "take ?k (drop m ?js) = map (\<lambda>j. (?c + j) mod ?k) [m..<m + ?k]"
      using m by (rule rr_take_drop)
    then show "distinct (take ?k (drop m ?js)) \<and> set (take ?k (drop m ?js)) = {0..<?k}"
      using rr_window [OF k, of ?c m] by simp
  qed
  have str: "distinct eps \<longrightarrow>
      (\<forall>e \<in> set eps. count_list (PickN N ap) (Inr e) = N div ?k
                     \<or> count_list (PickN N ap) (Inr e) = (N + ?k - 1) div ?k)"
  proof (intro impI ballI)
    fix e assume d: "distinct eps" and e: "e \<in> set eps"
    from e obtain i where i: "i < ?k" "eps ! i = e" by (auto simp: in_set_conv_nth)
    have inj: "inj_on ?g {0..<?k}"
      using d by (auto simp: inj_on_def nth_eq_iff_index_eq)
    have sub: "set ?js \<subseteq> {0..<?k}" using k by auto
    have "count_list (map ?g ?js) (?g i) = count_list ?js i"
      using inj sub i(1) by (intro count_list_inj_on [where A = "{0..<?k}"]) simp_all
    then have "count_list (PickN N ap) (Inr e) = count_list ?js i"
      using seq i(2) by simp
    then show "count_list (PickN N ap) (Inr e) = N div ?k
             \<or> count_list (PickN N ap) (Inr e) = (N + ?k - 1) div ?k"
      using cnt i(1) by simp
  qed
  show ?thesis
    unfolding Let_def using seq cnt win str by blast
qed

theorem Pick_round_robin_sequential_witness:
  "accessEndpointList threeEndpoints \<noteq> []
   \<and> PickN 7 threeEndpoints =
       [Inr ''10.0.0.2:80'', Inr ''10.0.0.3:80'', Inr ''10.0.0.1:80'',
        Inr ''10.0.0.2:80'', Inr ''10.0.0.3:80'', Inr ''10.0.0.1:80'', Inr ''10.0.0.2:80'']"
proof -
  have h: "accessEndpointList threeEndpoints = accessEndpointList threeEndpoints"
          "accessEndpointList threeEndpoints \<noteq> []"
          "length (accessEndpointList threeEndpoints) < 2 ^ 31"
          "- 1 \<le> sint (idx threeEndpoints)" "sint (idx threeEndpoints) < 2 ^ 31 - 1"
    by (simp_all add: threeEndpoints_def)
  have "PickN 7 threeEndpoints =
          map (\<lambda>j. Inr (accessEndpointList threeEndpoints ! j))
              (map (\<lambda>j. (nat (sint (idx threeEndpoints) + 1) + j)
                          mod length (accessEndpointList threeEndpoints)) [0..<7])"
    using Pick_round_robin_sequential [OF h, of 7] unfolding Let_def by blast
  moreover have "[0..<7] = [0, 1, 2, 3, 4, 5, 6 :: nat]" by code_simp
  ultimately show ?thesis
    using h(2) by (simp add: threeEndpoints_def)
qed

text \<open>A caller that runs both of its parts with no other caller in between is \<open>Pick\<close>.\<close>

lemma runSchedule_alone:
  "Pick_add ap = (Storing next, ap') \<Longrightarrow> runSchedule [t, t] ap Map.empty = [(t, fst (Pick ap))]"
  by (simp add: Pick_def split: prod.splits)

text \<open>
  C1 fails on the code. The picker is the one the constructor builds with the cursor
  \<open>0\<close>, after a refresh to three endpoints. Two callers overlap: both run \<open>Add\<close> before
  either runs \<open>Store\<close>, and the later \<open>Store\<close> sets the cursor back. The three calls of
  the schedule return the third endpoint, the second and the third again: within one
  cycle of three the first endpoint is skipped and the third returned twice, where
  three calls one after the other return each endpoint once.
\<close>

theorem Pick_race_unfair:
  "runEvents [Refresh (accessEndpointList threeEndpoints)] (NewAccessPicker [] 0) = threeEndpoints
   \<and> runSchedule [0, 1, 1, 0, 0, 0] threeEndpoints Map.empty =
       [(1, Inr ''10.0.0.3:80''), (0, Inr ''10.0.0.2:80''), (0, Inr ''10.0.0.3:80'')]
   \<and> count_list (map snd (runSchedule [0, 1, 1, 0, 0, 0] threeEndpoints Map.empty))
         (Inr ''10.0.0.1:80'') = 0
   \<and> count_list (map snd (runSchedule [0, 1, 1, 0, 0, 0] threeEndpoints Map.empty))
         (Inr ''10.0.0.3:80'') = 2
   \<and> PickN 3 threeEndpoints = [Inr ''10.0.0.2:80'', Inr ''10.0.0.3:80'', Inr ''10.0.0.1:80'']"
proof -
  have a: "runEvents [Refresh (accessEndpointList threeEndpoints)] (NewAccessPicker [] 0) = threeEndpoints"
    by (simp add: runEvents_def NewAccessPicker_def threeEndpoints_def rem32_def)
  have b: "runSchedule [0, 1, 1, 0, 0, 0] threeEndpoints Map.empty =
       [(1, Inr ''10.0.0.3:80''), (0, Inr ''10.0.0.2:80''), (0, Inr ''10.0.0.3:80'')]"
    by (simp add: threeEndpoints_def Pick_add_def Pick_store_def index32_def rem32_def
          smod_int_alt_def Let_def)
  have "PickN (Suc (Suc (Suc 0))) threeEndpoints
          = [Inr ''10.0.0.2:80'', Inr ''10.0.0.3:80'', Inr ''10.0.0.1:80'']"
    by (simp add: threeEndpoints_def Pick_def Pick_add_def Pick_store_def index32_def rem32_def
          smod_int_alt_def Let_def)
  then have c: "PickN 3 threeEndpoints
          = [Inr ''10.0.0.2:80'', Inr ''10.0.0.3:80'', Inr ''10.0.0.1:80'']"
    by (simp add: numeral_3_eq_3)
  show ?thesis unfolding b using a c by simp
qed

lemma cursorOk_New:
  assumes "0 \<le> sint r"
  shows "cursorOk (NewAccessPicker idcFilter r)"
proof -
  have "sint (rem32 r 100) = sint r mod sint (100 :: int32)"
    using assms by (intro sint_rem32) simp_all
  then have "sint (rem32 r 100) = sint r mod 100" by simp
  moreover have "0 \<le> sint r mod 100" "sint r mod 100 < 100" by simp_all
  ultimately show ?thesis by (simp add: cursorOk_def NewAccessPicker_def)
qed

lemma cursorOk_Pick:
  assumes "cursorOk ap"
  shows "cursorOk (snd (Pick ap))"
proof (cases "accessEndpointList ap = []")
  case True
  then show ?thesis using assms by (simp add: Pick_def Pick_add_def)
next
  case False
  let ?eps = "accessEndpointList ap"
  from assms have h: "length ?eps < 2 ^ 31" "- 1 \<le> sint (idx ap)" "sint (idx ap) < 2 ^ 31 - 1"
    by (simp_all add: cursorOk_def)
  from Pick_step [OF refl False h] obtain ap' where
    p: "Pick ap = (Inr (?eps ! (nat (sint (idx ap) + 1) mod length ?eps)), ap')" and
    l: "accessEndpointList ap' = ?eps" and
    i: "sint (idx ap') = int (nat (sint (idx ap) + 1) mod length ?eps)"
    by blast
  have "nat (sint (idx ap) + 1) mod length ?eps < length ?eps" using False by simp
  then have "sint (idx ap') < 2 ^ 31 - 1" using i h(1) by simp
  then show ?thesis using p l i h(1) by (simp add: cursorOk_def)
qed

lemma cursorOk_applyEvent:
  "cursorOk ap \<Longrightarrow> fitsInt32 e \<Longrightarrow> cursorOk (applyEvent ap e)"
  by (cases e) (simp_all add: cursorOk_Pick, simp add: cursorOk_def)

lemma cursorOk_runEvents:
  "cursorOk ap \<Longrightarrow> list_all fitsInt32 evs \<Longrightarrow> cursorOk (runEvents evs ap)"
  unfolding runEvents_def
  by (induction evs arbitrary: ap) (simp_all add: cursorOk_applyEvent)

text \<open>
  C7. On an empty list \<open>Pick\<close> returns the empty string and leaves the picker as it
  was: no index is computed. In every state a picker reaches from its constructor by
  calls and refreshes, a non-empty list is indexed within its bounds: the call returns
  one of its entries.
\<close>

theorem Pick_safe:
  "(accessEndpointList ap0 = [] \<longrightarrow> Pick ap0 = (Inr [], ap0))
   \<and> (0 \<le> sint r \<and> list_all fitsInt32 evs \<longrightarrow>
        (let ap = runEvents evs (NewAccessPicker idcFilter r)
         in accessEndpointList ap \<noteq> [] \<longrightarrow>
              (\<exists>i < length (accessEndpointList ap).
                  fst (Pick ap) = Inr (accessEndpointList ap ! i))))"
proof (intro conjI impI)
  assume "accessEndpointList ap0 = []"
  then show "Pick ap0 = (Inr [], ap0)" by (simp add: Pick_def Pick_add_def)
next
  assume a: "0 \<le> sint r \<and> list_all fitsInt32 evs"
  let ?ap = "runEvents evs (NewAccessPicker idcFilter r)"
  have ok: "cursorOk ?ap"
    using a cursorOk_New cursorOk_runEvents by blast
  have "accessEndpointList ?ap \<noteq> [] \<longrightarrow>
          (\<exists>i < length (accessEndpointList ?ap). fst (Pick ?ap) = Inr (accessEndpointList ?ap ! i))"
  proof
    assume ne: "accessEndpointList ?ap \<noteq> []"
    from ok have h: "length (accessEndpointList ?ap) < 2 ^ 31" "- 1 \<le> sint (idx ?ap)"
        "sint (idx ?ap) < 2 ^ 31 - 1"
      by (simp_all add: cursorOk_def)
    from Pick_step [OF refl ne h] obtain ap' where
      "Pick ?ap = (Inr (accessEndpointList ?ap !
                    (nat (sint (idx ?ap) + 1) mod length (accessEndpointList ?ap))), ap')"
      by blast
    moreover have "nat (sint (idx ?ap) + 1) mod length (accessEndpointList ?ap)
                     < length (accessEndpointList ?ap)"
      using ne by simp
    ultimately show "\<exists>i < length (accessEndpointList ?ap).
        fst (Pick ?ap) = Inr (accessEndpointList ?ap ! i)"
      by (metis fst_conv)
  qed
  then show "let ap = ?ap in accessEndpointList ap \<noteq> [] \<longrightarrow>
      (\<exists>i < length (accessEndpointList ap). fst (Pick ap) = Inr (accessEndpointList ap ! i))"
    by (simp add: Let_def)
qed

theorem Pick_safe_witness:
  "0 \<le> sint (1234 :: int32)
   \<and> list_all fitsInt32 [Refresh (accessEndpointList threeEndpoints), CallPick, CallPick]
   \<and> Pick (NewAccessPicker [] 1234) = (Inr [], NewAccessPicker [] 1234)
   \<and> (\<exists>i < length (accessEndpointList threeEndpoints).
          fst (Pick (runEvents [Refresh (accessEndpointList threeEndpoints), CallPick, CallPick]
                              (NewAccessPicker [] 1234)))
                = Inr (accessEndpointList threeEndpoints ! i))"
proof -
  let ?evs = "[Refresh (accessEndpointList threeEndpoints), CallPick, CallPick]"
  let ?ap = "runEvents ?evs (NewAccessPicker [] 1234)"
  have r: "0 \<le> sint (1234 :: int32)" by simp
  have e: "list_all fitsInt32 ?evs" by (simp add: threeEndpoints_def)
  have l: "accessEndpointList ?ap = accessEndpointList threeEndpoints"
    by (simp add: runEvents_def NewAccessPicker_def threeEndpoints_def Pick_def Pick_add_def
          Pick_store_def index32_def rem32_def smod_int_alt_def Let_def)
  have n: "accessEndpointList (NewAccessPicker [] 1234) = []"
    by (simp add: NewAccessPicker_def)
  note safe = Pick_safe [of "NewAccessPicker [] 1234" 1234 ?evs "[]"]
  from safe n have a: "Pick (NewAccessPicker [] 1234) = (Inr [], NewAccessPicker [] 1234)"
    by blast
  from safe r e have "accessEndpointList ?ap \<noteq> [] \<longrightarrow>
      (\<exists>i < length (accessEndpointList ?ap). fst (Pick ?ap) = Inr (accessEndpointList ?ap ! i))"
    unfolding Let_def by blast
  then have b: "\<exists>i < length (accessEndpointList threeEndpoints).
      fst (Pick ?ap) = Inr (accessEndpointList threeEndpoints ! i)"
    unfolding l by (simp add: threeEndpoints_def)
  from r e a b show ?thesis by blast
qed

subsection \<open>Parsing a server record\<close>

lemma matchServerInfo_length:
  "matchServerInfo s = Some ms \<Longrightarrow> length ms = 5"
  by (auto simp: matchServerInfo_def Let_def split: option.splits prod.splits)

lemma serverInfoSubmatch_length:
  "length (serverInfoSubmatch s) = 0 \<or> length (serverInfoSubmatch s) = 5"
  by (induction s) (auto split: option.splits dest: matchServerInfo_length)

text \<open>
  C10, as the code has it. \<open>FindStringSubmatch\<close> on a pattern with four groups returns
  nil or five entries; for every such result the two versions of
  \<open>parseAccessServerInfo\<close> return the same triple. The triple is empty when the record
  does not match, and also when it matches with an empty \<open>ip\<close>, \<open>port\<close> and \<open>idc\<close>.
\<close>

theorem parseAccessServerInfo_variants_agree:
  assumes "length (submatch s) = 0 \<or> length (submatch s) = 5"
  shows "parseAccessServerInfo submatch s = parseAccessServerInfo_range submatch s
       \<and> (submatch s = [] \<longrightarrow> parseAccessServerInfo submatch s = ([], [], []))
       \<and> (parseAccessServerInfo submatch s = ([], [], []) \<longleftrightarrow>
            submatch s = [] \<or> (submatch s ! 1 = [] \<and> submatch s ! 2 = [] \<and> submatch s ! 4 = []))"
proof (cases "submatch s = []")
  case True
  then show ?thesis
    by (simp add: parseAccessServerInfo_def parseAccessServerInfo_range_def)
next
  case False
  with assms have "length (submatch s) = 5" by simp
  then obtain m0 m1 m2 m3 m4 where ms: "submatch s = [m0, m1, m2, m3, m4]"
    by (auto simp: length_Suc_conv eval_nat_numeral)
  show ?thesis
    by (simp add: parseAccessServerInfo_def parseAccessServerInfo_range_def ms)
qed

theorem parseAccessServerInfo_variants_agree_witness:
  "length (serverInfoSubmatch ''10.1.2.3:8080#5|D'') = 5
   \<and> parseAccessServerInfo serverInfoSubmatch ''10.1.2.3:8080#5|D'' = (''10.1.2.3'', ''8080'', ''D'')
   \<and> parseAccessServerInfo_range serverInfoSubmatch ''10.1.2.3:8080#5|D'' = (''10.1.2.3'', ''8080'', ''D'')"
proof -
  have m: "serverInfoSubmatch ''10.1.2.3:8080#5|D''
             = [''10.1.2.3:8080#5|D'', ''10.1.2.3'', ''8080'', ''5'', ''D'']"
    by (simp add: matchServerInfo_def newline_def Let_def)
  then have l: "length (serverInfoSubmatch ''10.1.2.3:8080#5|D'') = 5" by simp
  have p: "parseAccessServerInfo serverInfoSubmatch ''10.1.2.3:8080#5|D'' = (''10.1.2.3'', ''8080'', ''D'')"
    unfolding parseAccessServerInfo_def m by simp
  from parseAccessServerInfo_variants_agree [of serverInfoSubmatch "''10.1.2.3:8080#5|D''"] l
  have "parseAccessServerInfo serverInfoSubmatch ''10.1.2.3:8080#5|D''
          = parseAccessServerInfo_range serverInfoSubmatch ''10.1.2.3:8080#5|D''"
    by blast
  with l p show ?thesis by simp
qed

text \<open>
  C10 as stated fails in its last part: the record \<open>:#|\<close> matches the pattern, with
  every group empty, and both versions return three empty strings for it.
\<close>

theorem parseAccessServerInfo_empty_counterexample:
  "serverInfoSubmatch '':#|'' = ['':#|'', [], [], [], []]
   \<and> parseAccessServerInfo serverInfoSubmatch '':#|'' = ([], [], [])
   \<and> parseAccessServerInfo_range serverInfoSubmatch '':#|'' = ([], [], [])"
  by (simp add: parseAccessServerInfo_def parseAccessServerInfo_range_def matchServerInfo_def newline_def)

section \<open>Properties of the glob searcher\<close>

lemma keepPath_iff: "keepPath pm eps m \<longleftrightarrow> \<not> (\<exists>ep \<in> set eps. pm ep m = Inr True)"
  by (induction eps) auto

lemma dropLoop_filter:
  "dropLoop pm ms eps = filter (\<lambda>m. \<not> (\<exists>ep \<in> set eps. pm ep m = Inr True)) ms"
  by (induction ms) (simp_all add: keepPath_iff)

lemma anySuffix_iff: "anySuffix p sfx \<longleftrightarrow> (\<exists>suffix \<in> set sfx. HasSuffix p suffix)"
  by (induction sfx) auto

lemma suffixLoop_filter: "suffixLoop ms sfx = filter (\<lambda>p. anySuffix p sfx) ms"
  by (induction ms) auto

lemma HasSuffix_iff: "HasSuffix s suffix \<longleftrightarrow> (\<exists>pre. s = pre @ suffix)"
proof
  assume h: "HasSuffix s suffix"
  then have "s = take (length s - length suffix) s @ suffix"
    by (metis HasSuffix_def append_take_drop_id)
  then show "\<exists>pre. s = pre @ suffix" ..
next
  assume "\<exists>pre. s = pre @ suffix"
  then show "HasSuffix s suffix" by (auto simp: HasSuffix_def)
qed

text \<open>
  C8. The exclusion stage drops a path exactly when some exclusion pattern matches it
  (\<open>path.Match\<close> on the whole path, without error) and keeps the others in order. The
  suffix stage keeps everything when no suffix is configured, and otherwise exactly the
  paths that end with one of the suffixes. With the exclusion \<open>a/skip.log\<close>, which
  matches itself and neither of the other two paths, and the suffix \<open>.log\<close>, the
  candidates \<open>a/x.log\<close>, \<open>a/skip.log\<close>, \<open>a/y.txt\<close> give exactly \<open>a/x.log\<close>.
\<close>

theorem exclusion_suffix_composition:
  "dropExcludedPath pm ms eps = (filter (\<lambda>m. \<not> (\<exists>ep \<in> set eps. pm ep m = Inr True)) ms, None)
   \<and> filterSuffix ms sfx =
       (if sfx = [] then ms else filter (\<lambda>p. \<exists>suffix \<in> set sfx. \<exists>pre. p = pre @ suffix) ms)
   \<and> (pm ''a/skip.log'' ''a/x.log'' = Inr False
        \<and> pm ''a/skip.log'' ''a/skip.log'' = Inr True
        \<and> pm ''a/skip.log'' ''a/y.txt'' = Inr False
      \<longrightarrow> filterSuffix (fst (dropExcludedPath pm [''a/x.log'', ''a/skip.log'', ''a/y.txt'']
                                [''a/skip.log''])) [''.log'']
           = [''a/x.log''])"
proof (intro conjI impI)
  show "dropExcludedPath pm ms eps =
      (filter (\<lambda>m. \<not> (\<exists>ep \<in> set eps. pm ep m = Inr True)) ms, None)"
    unfolding dropExcludedPath_def dropLoop_filter ..
  show "filterSuffix ms sfx =
      (if sfx = [] then ms else filter (\<lambda>p. \<exists>suffix \<in> set sfx. \<exists>pre. p = pre @ suffix) ms)"
    by (simp add: filterSuffix_def suffixLoop_filter anySuffix_iff HasSuffix_iff)
next
  assume "pm ''a/skip.log'' ''a/x.log'' = Inr False
        \<and> pm ''a/skip.log'' ''a/skip.log'' = Inr True
        \<and> pm ''a/skip.log'' ''a/y.txt'' = Inr False"
  then show "filterSuffix (fst (dropExcludedPath pm [''a/x.log'', ''a/skip.log'', ''a/y.txt'']
                                [''a/skip.log''])) [''.log''] = [''a/x.log'']"
    by (simp add: dropExcludedPath_def filterSuffix_def HasSuffix_def)
qed

theorem exclusion_suffix_composition_witness:
  "literalMatch ''a/skip.log'' ''a/x.log'' = Inr False
   \<and> literalMatch ''a/skip.log'' ''a/skip.log'' = Inr True
   \<and> literalMatch ''a/skip.log'' ''a/y.txt'' = Inr False
   \<and> filterSuffix (fst (dropExcludedPath literalMatch [''a/x.log'', ''a/skip.log'', ''a/y.txt'']
                                [''a/skip.log''])) [''.log'']
           = [''a/x.log'']"
  using exclusion_suffix_composition [of literalMatch "[]" "[]" "[]"]
  by (simp add: literalMatch_def)

lemma Search_alone:
  "Search path ex sf s =
     (let s' = (if inProcess s path = None
                then s\<lparr>inProcess := (inProcess s)(path \<mapsto>
                            \<lparr>Path = [], taskExcludePath = ex, SuffixFilter = sf\<rparr>),
                        queue := queue s @ [\<lparr>Path = path, taskExcludePath = ex, SuffixFilter = sf\<rparr>]\<rparr>
                else s)
      in (cached s' path, s'))"
  by (simp add: Search_def Search_load_def Search_store_def Search_send_def Let_def)

lemma coalesced_New: "coalesced NewGlobSearcher"
  by (simp add: coalesced_def NewGlobSearcher_def inFlight_def)

lemma coalesced_Search:
  assumes "coalesced s"
  shows "coalesced (snd (Search path ex sf s))"
proof (cases "inProcess s path = None")
  case False
  then show ?thesis using assms by (auto simp: Search_alone Let_def)
next
  case True
  then have "path \<notin> dom (inProcess s)" by (simp add: domIff)
  then have "path \<notin> Path ` set (inFlight s)" using assms by (simp add: coalesced_def)
  then show ?thesis
    using assms True by (auto simp: coalesced_def Search_alone Let_def inFlight_def split: option.splits)
qed

lemma coalesced_workerReceive:
  "coalesced s \<Longrightarrow> coalesced (workerReceive s)"
  by (auto simp: coalesced_def workerReceive_def inFlight_def split: option.splits list.splits)

lemma coalesced_workerFinish:
  assumes "coalesced s"
  shows "coalesced (workerFinish env s)"
proof (cases "running s")
  case None
  then show ?thesis using assms by (simp add: workerFinish_def)
next
  case (Some t)
  from assms Some have d: "Path t \<notin> Path ` set (queue s)" "distinct (map Path (queue s))"
    and dm: "dom (inProcess s) = insert (Path t) (Path ` set (queue s))"
    by (simp_all add: coalesced_def inFlight_def)
  have "dom ((inProcess s)(Path t := None)) = Path ` set (queue s)"
    using d(1) dm by auto
  then show ?thesis
    using Some d(2) by (simp add: coalesced_def workerFinish_def inFlight_def)
qed

lemma coalesced_event: "coalesced s \<Longrightarrow> coalesced (applySearcherEvent s e)"
  by (cases e) (simp_all add: coalesced_Search coalesced_workerReceive coalesced_workerFinish)

lemma coalesced_foldl: "coalesced s \<Longrightarrow> coalesced (foldl applySearcherEvent s evs)"
  by (induction evs arbitrary: s) (simp_all add: coalesced_event)

lemma coalesced_runSearcher: "coalesced (runSearcher evs)"
  unfolding runSearcher_def by (rule coalesced_foldl) (rule coalesced_New)

lemma distinct_filter_eq_1:
  "distinct (map f xs) \<Longrightarrow> p \<in> f ` set xs \<Longrightarrow> length (filter (\<lambda>t. f t = p) xs) = 1"
proof (induction xs)
  case Nil
  then show ?case by simp
next
  case (Cons a xs)
  show ?case
  proof (cases "f a = p")
    case True
    have "f a \<notin> f ` set xs" using Cons.prems(1) by simp
    then have "\<forall>x \<in> set xs. f x \<noteq> p" using True by (metis imageI)
    then have "filter (\<lambda>t. f t = p) xs = []" by (simp add: filter_empty_conv)
    then show ?thesis using True by simp
  next
    case False
    then have "p \<in> f ` set xs" using Cons.prems(2) by auto
    then show ?thesis using Cons.IH Cons.prems(1) False by simp
  qed
qed

lemma distinct_filter_le_1:
  assumes "distinct (map f xs)"
  shows "length (filter (\<lambda>t. f t = p) xs) \<le> 1"
proof (cases "p \<in> f ` set xs")
  case True
  then show ?thesis using distinct_filter_eq_1 [OF assms] by simp
next
  case False
  then have "\<forall>x \<in> set xs. f x \<noteq> p" by (metis imageI)
  then have "filter (\<lambda>t. f t = p) xs = []" by (simp add: filter_empty_conv)
  then show ?thesis by simp
qed

lemma Search_inProcess:
  "inProcess s path \<noteq> None \<Longrightarrow> Search path ex sf s = (cached s path, s)"
  by (auto simp: Search_alone Let_def)

lemma Search_marks: "inProcess (snd (Search path ex sf s)) path \<noteq> None"
  by (simp add: Search_alone Let_def)

text \<open>
  Callers that do not overlap are coalesced. In every state reached by calls of
  \<open>Search\<close> that each run alone, with the worker's steps in between: a pattern has at
  most one computation in flight; a call for a marked pattern sends no task, changes
  nothing and returns the cached result; after two calls for the same pattern exactly
  one task for it is in flight.
\<close>

theorem Search_coalesces:
  "(let s = runSearcher evs
    in length (filter (\<lambda>t. Path t = p) (inFlight s)) \<le> 1
     \<and> (inProcess s path \<noteq> None \<longrightarrow> Search path ex sf s = (cached s path, s))
     \<and> (let (r1, s1) = Search path ex sf s;
             (r2, s2) = Search path ex2 sf2 s1
         in s2 = s1 \<and> r2 = cached s1 path
          \<and> length (filter (\<lambda>t. Path t = path) (inFlight s2)) = 1))"
proof -
  let ?s = "runSearcher evs"
  let ?s1 = "snd (Search path ex sf ?s)"
  have c: "coalesced ?s" by (rule coalesced_runSearcher)
  then have "distinct (map Path (inFlight ?s))" by (simp add: coalesced_def)
  then have a: "length (filter (\<lambda>t. Path t = p) (inFlight ?s)) \<le> 1"
    by (rule distinct_filter_le_1)
  have c1: "coalesced ?s1" using c by (rule coalesced_Search)
  have m1: "inProcess ?s1 path \<noteq> None" by (rule Search_marks)
  then have second: "Search path ex2 sf2 ?s1 = (cached ?s1 path, ?s1)"
    by (rule Search_inProcess)
  from m1 have "path \<in> dom (inProcess ?s1)" by (simp add: domIff)
  then have "path \<in> Path ` set (inFlight ?s1)" using c1 by (simp add: coalesced_def)
  moreover have "distinct (map Path (inFlight ?s1))" using c1 by (simp add: coalesced_def)
  ultimately have one: "length (filter (\<lambda>t. Path t = path) (inFlight ?s1)) = 1"
    by (intro distinct_filter_eq_1)
  show ?thesis
    using a second one by (simp add: Let_def split_beta Search_inProcess)
qed

theorem Search_coalesces_witness:
  "inProcess (runSearcher [CallSearch ''/var/log/*.log'' [] [''.log''], WorkerReceive]) ''/var/log/*.log'' \<noteq> None
   \<and> Search ''/var/log/*.log'' [] [''.log'']
        (runSearcher [CallSearch ''/var/log/*.log'' [] [''.log''], WorkerReceive])
      = (([], None), runSearcher [CallSearch ''/var/log/*.log'' [] [''.log''], WorkerReceive])"
proof -
  let ?s = "runSearcher [CallSearch ''/var/log/*.log'' [] [''.log''], WorkerReceive]"
  have i: "inProcess ?s ''/var/log/*.log'' \<noteq> None"
    by (simp add: runSearcher_def NewGlobSearcher_def Search_alone workerReceive_def cached_def)
  have r: "cached ?s ''/var/log/*.log'' = ([], None)"
    by (simp add: runSearcher_def NewGlobSearcher_def Search_alone workerReceive_def cached_def)
  from Search_coalesces [where evs = "[CallSearch ''/var/log/*.log'' [] [''.log''], WorkerReceive]"
      and path = "''/var/log/*.log''" and ex = "[]" and sf = "[''.log'']"] i
  have "Search ''/var/log/*.log'' [] [''.log''] ?s = (cached ?s ''/var/log/*.log'', ?s)"
    unfolding Let_def by blast
  with i r show ?thesis by simp
qed

text \<open>
  C6 fails on the code. Two callers ask for the same pattern and their calls overlap:
  both run the \<open>Load\<close> before either runs the \<open>Store\<close>, so both see no mark, both set it
  and both send. Two computations for the pattern are in flight at once. The worker
  receives the first and finishes it, which deletes the mark, and then receives the
  second: it scans the file system twice for the two calls, the second time for a
  pattern that is no longer marked.
\<close>

theorem Search_overlap_two_scans:
  "map Path (inFlight (runOverlap samePattern
       [Caller 0, Caller 1, Caller 0, Caller 0, Caller 1, Caller 1]))
     = [''/var/log/*.log'', ''/var/log/*.log'']
   \<and> length (filter (\<lambda>t. Path t = ''/var/log/*.log'')
        (inFlight (runOverlap samePattern
           [Caller 0, Caller 1, Caller 0, Caller 0, Caller 1, Caller 1]))) = 2
   \<and> running (runOverlap samePattern
        [Caller 0, Caller 1, Caller 0, Caller 0, Caller 1, Caller 1, Receive])
     = Some (samePattern 0)
   \<and> running (runOverlap samePattern
        [Caller 0, Caller 1, Caller 0, Caller 0, Caller 1, Caller 1,
         Receive, Finish badPatternEnv, Receive])
     = Some (samePattern 1)
   \<and> inProcess (runOverlap samePattern
        [Caller 0, Caller 1, Caller 0, Caller 0, Caller 1, Caller 1,
         Receive, Finish badPatternEnv, Receive]) ''/var/log/*.log''
     = None"
  by (simp add: runOverlap_def NewGlobSearcher_def samePattern_def inFlight_def
        Search_load_def Search_store_def Search_send_def workerReceive_def workerFinish_def)

text \<open>The same two calls, the second starting after the first has sent: one task.\<close>

lemma Search_no_overlap_one_task:
  "map Path (inFlight (runOverlap samePattern
       [Caller 0, Caller 0, Caller 0, Caller 1, Caller 1]))
     = [''/var/log/*.log'']"
  by (simp add: runOverlap_def NewGlobSearcher_def samePattern_def inFlight_def
        Search_load_def Search_store_def Search_send_def)

lemma runTask_err: "err (runTask env t) = None"
  by (simp add: runTask_def dropExcludedPath_def Let_def split_beta)

text \<open>
  C3 fails on the code. \<open>searchTask\<close> assigns the error of \<open>doublestar.Glob\<close> to
  \<open>mr.err\<close> and on the next line assigns the error of \<open>dropExcludedPath\<close>, always nil,
  to it again: no task records an error. With the pattern \<open>[\<close>, a syntax error of
  \<open>Glob\<close>, the task runs to its end and the next \<open>Search\<close> returns no error.
\<close>

theorem glob_error_overwritten:
  "Glob badPatternEnv ''['' = ([], Some ErrBadPattern)
   \<and> err (runTask badPatternEnv \<lparr>Path = ''['', taskExcludePath = [], SuffixFilter = []\<rparr>) = None
   \<and> fst (Search ''['' [] []
        (runSearcher [CallSearch ''['' [] [], WorkerReceive, WorkerFinish badPatternEnv]))
      = ([], None)"
  by (simp add: runTask_err badPatternEnv_def runSearcher_def NewGlobSearcher_def Search_alone
        workerReceive_def workerFinish_def cached_def runTask_def dropExcludedPath_def
        filterSuffix_def Let_def)

end
